theory Spec2Isabelle
  imports Main "HOL-Library.Word"
begin

unbundle bit_operations_syntax

section \<open>Data model of the sensor node firmware (main.c)\<close>

type_synonym uint8_t = "8 word"
type_synonym uint16_t = "16 word"

text \<open>\<^verbatim>\<open>_BV(n)\<close> of avr-libc is \<^verbatim>\<open>1 << n\<close>.\<close>

definition BV :: "nat \<Rightarrow> uint8_t" where
  "BV n = push_bit n 1"

text \<open>Pin numbers used by main.c (\<^verbatim>\<open>PBn\<close> is \<open>n\<close>).\<close>

definition TX_PIN :: nat where "TX_PIN = 3"
definition TEMP_SENSE_POWER_PIN :: nat where "TEMP_SENSE_POWER_PIN = 0"
definition RADIO_POWER_PIN :: nat where "RADIO_POWER_PIN = 1"
definition TEMP_SENSE_INPUT_DIG_PIN :: nat where "TEMP_SENSE_INPUT_DIG_PIN = 4"
definition TEMP_SENSE_INPUT_AN_PIN :: uint8_t where "TEMP_SENSE_INPUT_AN_PIN = 2"
definition NODE_ID :: uint8_t where "NODE_ID = 3"

text \<open>
  Register bit positions come from the toolchain's device header (avr/io.h), not from
  the repository; the values are those of the ATtiny13 family, which has every register
  main.c names. No theorem below depends on the particular positions.
\<close>

definition REFS0 :: nat where "REFS0 = 6"
definition ADEN :: nat where "ADEN = 7"
definition ADIE :: nat where "ADIE = 3"
definition WDTIE :: nat where "WDTIE = 6"

text \<open>Delays are kept in microseconds: \<^verbatim>\<open>_delay_ms(0.5)\<close> is 500, \<^verbatim>\<open>_delay_ms(0.1)\<close> is 100.\<close>

definition HALF_BIT_DELAY_TIME_MICROS :: nat where "HALF_BIT_DELAY_TIME_MICROS = 500"
definition SETTLE_DELAY_MICROS :: nat where "SETTLE_DELAY_MICROS = 100"

definition WDT_DURATION :: int where "WDT_DURATION = 2"
definition SLEEP_TIME :: int where "SLEEP_TIME = 234"

datatype sleep_mode_t = SLEEP_MODE_IDLE | SLEEP_MODE_ADC | SLEEP_MODE_PWR_DOWN

text \<open>
  The two interrupt sources of main.c. A conversion-complete interrupt carries the value
  the converter has latched into \<^verbatim>\<open>ADCW\<close> when it fires.
\<close>

datatype irq = ADC_vect uint16_t | WDT_vect

text \<open>
  The log of the actions of the program, in program order: every register
  write, every delay, every entry into a sleep state, and the store of the checksum.
\<close>

datatype event =
    Out_PORTB uint8_t
  | Out_DDRB uint8_t
  | Out_ADMUX uint8_t
  | Out_ADCSRA uint8_t
  | Out_WDTCR uint8_t
  | Set_sleep_mode sleep_mode_t
  | Wdt_reset
  | Sleep sleep_mode_t
  | Delay_us nat
  | Store_checksum uint8_t

text \<open>
  Modelled from the spec: sensor_node.h (the packet struct, the union
  \<^verbatim>\<open>manchester_union\<close> over it, \<^verbatim>\<open>READING_TYPE_TEMP\<close> and \<^verbatim>\<open>calculate_checksum\<close>) is
  not among the sources. The fields and their order are those of the spec's data model;
  the width of \<^verbatim>\<open>seq_no\<close>, which the spec leaves open, is the type parameter.
\<close>

record (overloaded) 'w packet =
  node_id :: uint8_t
  seq_no :: "'w word"
  reading_type :: uint8_t
  reading :: uint16_t
  checksum :: uint8_t

record (overloaded) 'w node =
  PORTB :: uint8_t
  DDRB :: uint8_t
  ADMUX :: uint8_t
  ADCSRA :: uint8_t
  WDTCR :: uint8_t
  ADCW :: uint16_t
  sleep_mode_sel :: sleep_mode_t
  adc_done :: bool
  lfsr_state :: uint16_t
  manchester_union :: "'w packet"
  events :: "event list"

section \<open>Entropy generator\<close>

text \<open>C's \<^verbatim>\<open>!x\<close> on a byte.\<close>

definition lnot :: "uint8_t \<Rightarrow> uint8_t" where
  "lnot x = (if x = 0 then 1 else 0)"

text \<open>The body of the loop of \<^verbatim>\<open>rand_byte\<close>, on the value of \<^verbatim>\<open>lfsr_state\<close>.\<close>

definition lfsr_shift :: "uint16_t \<Rightarrow> uint16_t" where
  "lfsr_shift st =
     (let new_bit = (0 :: uint8_t);
          new_bit = (if st AND push_bit 15 1 \<noteq> 0 then lnot new_bit else new_bit);
          new_bit = (if st AND push_bit 13 1 \<noteq> 0 then lnot new_bit else new_bit);
          new_bit = (if st AND push_bit 12 1 \<noteq> 0 then lnot new_bit else new_bit);
          new_bit = (if st AND push_bit 10 1 \<noteq> 0 then lnot new_bit else new_bit);
          st = push_bit 1 st
      in st OR ucast new_bit)"

text \<open>\<^verbatim>\<open>for (uint8_t i = 8; i>0; i--)\<close>: the argument is \<open>i\<close>.\<close>

fun rand_loop :: "nat \<Rightarrow> uint16_t \<Rightarrow> uint16_t" where
  "rand_loop 0 st = st"
| "rand_loop (Suc i) st = rand_loop i (lfsr_shift st)"

definition rand_byte :: "'w::len node \<Rightarrow> uint8_t \<times> 'w node" where
  "rand_byte s =
     (let s = (if lfsr_state s = 0 then s\<lparr>lfsr_state := 0xDEAD\<rparr> else s);
          s = s\<lparr>lfsr_state := rand_loop 8 (lfsr_state s)\<rparr>
      in (ucast (lfsr_state s), s))"

definition mix_rand :: "uint8_t \<Rightarrow> 'w::len node \<Rightarrow> 'w node" where
  "mix_rand x s =
     (if x AND 1 \<noteq> 0 then
        (let tmp = (ucast (drop_bit 15 (lfsr_state s AND push_bit 15 1)) :: uint8_t);
             tmp2 = (ucast (drop_bit 3 (lfsr_state s AND push_bit 3 1)) :: uint8_t)
         in if tmp \<noteq> tmp2
            then (let s = s\<lparr>lfsr_state := lfsr_state s XOR push_bit 3 1\<rparr>
                  in s\<lparr>lfsr_state := lfsr_state s XOR push_bit 15 1\<rparr>)
            else s)
      else s)"

text \<open>
  The shift step in the words of the spec: the new low bit is the exclusive or of bits
  15, 13, 12 and 10, inserted after a shift left by one.
\<close>

definition spec_lfsr_step :: "uint16_t \<Rightarrow> uint16_t" where
  "spec_lfsr_step st =
     push_bit 1 st OR of_bool ((bit st 15 \<noteq> bit st 13) \<noteq> (bit st 12 \<noteq> bit st 10))"

text \<open>
  One call of the generator in the words of the spec: the zero guard, then eight steps.
\<close>

definition spec_rand_state :: "uint16_t \<Rightarrow> uint16_t" where
  "spec_rand_state st = (spec_lfsr_step ^^ 8) (if st = 0 then 0xDEAD else st)"

text \<open>Repeated calls of \<^verbatim>\<open>rand_byte\<close> with nothing in between; the bytes are dropped.\<close>

fun rand_calls :: "nat \<Rightarrow> 'w::len node \<Rightarrow> 'w node" where
  "rand_calls 0 s = s"
| "rand_calls (Suc n) s = rand_calls n (snd (rand_byte s))"

text \<open>
  The state after reset: the device registers at their reset value, the statics
  zero-initialised by the C startup code, nothing logged yet.
\<close>

definition power_on :: "'w::len node" where
  "power_on = \<lparr>PORTB = 0, DDRB = 0, ADMUX = 0, ADCSRA = 0, WDTCR = 0, ADCW = 0,
     sleep_mode_sel = SLEEP_MODE_IDLE, adc_done = False, lfsr_state = 0,
     manchester_union =
       \<lparr>node_id = 0, seq_no = 0, reading_type = 0, reading = 0, checksum = 0\<rparr>,
     events = []\<rparr>"

section \<open>Register writes, delays and interrupts\<close>

text \<open>Each write stores the value and logs it. A read returns the value last written.\<close>

definition out_PORTB :: "uint8_t \<Rightarrow> 'w::len node \<Rightarrow> 'w node" where
  "out_PORTB v s = s\<lparr>PORTB := v, events := events s @ [Out_PORTB v]\<rparr>"

definition out_DDRB :: "uint8_t \<Rightarrow> 'w::len node \<Rightarrow> 'w node" where
  "out_DDRB v s = s\<lparr>DDRB := v, events := events s @ [Out_DDRB v]\<rparr>"

definition out_ADMUX :: "uint8_t \<Rightarrow> 'w::len node \<Rightarrow> 'w node" where
  "out_ADMUX v s = s\<lparr>ADMUX := v, events := events s @ [Out_ADMUX v]\<rparr>"

definition out_ADCSRA :: "uint8_t \<Rightarrow> 'w::len node \<Rightarrow> 'w node" where
  "out_ADCSRA v s = s\<lparr>ADCSRA := v, events := events s @ [Out_ADCSRA v]\<rparr>"

definition out_WDTCR :: "uint8_t \<Rightarrow> 'w::len node \<Rightarrow> 'w node" where
  "out_WDTCR v s = s\<lparr>WDTCR := v, events := events s @ [Out_WDTCR v]\<rparr>"

definition set_sleep_mode :: "sleep_mode_t \<Rightarrow> 'w::len node \<Rightarrow> 'w node" where
  "set_sleep_mode m s = s\<lparr>sleep_mode_sel := m, events := events s @ [Set_sleep_mode m]\<rparr>"

definition wdt_reset :: "'w::len node \<Rightarrow> 'w node" where
  "wdt_reset s = s\<lparr>events := events s @ [Wdt_reset]\<rparr>"

definition delay_us :: "nat \<Rightarrow> 'w::len node \<Rightarrow> 'w node" where
  "delay_us d s = s\<lparr>events := events s @ [Delay_us d]\<rparr>"

text \<open>
  The interrupt handlers. \<^verbatim>\<open>ISR(ADC_vect)\<close> sets \<^verbatim>\<open>adc_done\<close>; the converter has latched
  its result into \<^verbatim>\<open>ADCW\<close> by then. \<^verbatim>\<open>WDT_vect\<close> is an \<^verbatim>\<open>EMPTY_INTERRUPT\<close>.
\<close>

fun isr :: "irq \<Rightarrow> 'w::len node \<Rightarrow> 'w node" where
  "isr (ADC_vect v) s = s\<lparr>ADCW := v, adc_done := True\<rparr>"
| "isr WDT_vect s = s"

text \<open>
  \<^verbatim>\<open>sleep_mode()\<close>: the processor halts in the selected sleep state until the next
  interrupt, runs its handler and goes on. The interrupts to come are a list, consumed
  from the front; \<open>None\<close> says that none of them wakes the processor, so the call does not
  return.
\<close>

definition sleep_mode :: "irq list \<Rightarrow> 'w::len node \<Rightarrow> ('w node \<times> irq list) option" where
  "sleep_mode irqs s =
     (let s = s\<lparr>events := events s @ [Sleep (sleep_mode_sel s)]\<rparr>
      in case irqs of [] \<Rightarrow> None | i # rest \<Rightarrow> Some (isr i s, rest))"

section \<open>Analog sampler\<close>

text \<open>
  \<^verbatim>\<open>while (!adc_done) { }\<close>: the processor stays awake in the empty loop; every interrupt
  that arrives meanwhile runs its handler. \<open>None\<close>: the flag is not set by any of the
  interrupts to come, and the loop does not end.
\<close>

fun adc_wait :: "irq list \<Rightarrow> 'w::len node \<Rightarrow> ('w node \<times> irq list) option" where
  "adc_wait [] s = (if adc_done s then Some (s, []) else None)"
| "adc_wait (i # rest) s = (if adc_done s then Some (s, i # rest) else adc_wait rest (isr i s))"

definition do_adc_conversion :: "irq list \<Rightarrow> 'w::len node \<Rightarrow> ('w node \<times> irq list) option" where
  "do_adc_conversion irqs s =
     (let s = s\<lparr>adc_done := False\<rparr>;
          s = set_sleep_mode SLEEP_MODE_ADC s
      in case sleep_mode irqs s of
           None \<Rightarrow> None
         | Some (s, irqs) \<Rightarrow>
             (case adc_wait irqs s of
                None \<Rightarrow> None
              | Some (s, irqs) \<Rightarrow> Some (mix_rand (ucast (ADCW s)) s, irqs)))"

definition read_temperature ::
  "irq list \<Rightarrow> 'w::len node \<Rightarrow> (uint16_t \<times> 'w node \<times> irq list) option" where
  "read_temperature irqs s =
     (let s = out_PORTB (PORTB s OR BV TEMP_SENSE_POWER_PIN) s;
          s = out_ADMUX (BV REFS0 OR TEMP_SENSE_INPUT_AN_PIN) s;
          s = out_ADCSRA (BV ADEN OR BV ADIE OR 6) s
      in case do_adc_conversion irqs s of
           None \<Rightarrow> None
         | Some (s, irqs) \<Rightarrow>
             (case do_adc_conversion irqs s of
                None \<Rightarrow> None
              | Some (s, irqs) \<Rightarrow>
                  (let result = ADCW s;
                       s = out_ADCSRA (ADCSRA s AND NOT (BV ADEN)) s;
                       s = out_PORTB (PORTB s AND NOT (BV TEMP_SENSE_POWER_PIN)) s
                   in Some (result, s, irqs))))"

section \<open>Sleep scheduler\<close>

text \<open>
  \<^verbatim>\<open>for (uint8_t i = 0; i < num_sleeps; ++i) sleep_mode();\<close> The counter never wraps, as
  it stays below \<^verbatim>\<open>num_sleeps\<close>.
\<close>

function deep_sleep_loop ::
  "uint8_t \<Rightarrow> uint8_t \<Rightarrow> irq list \<Rightarrow> 'w::len node \<Rightarrow> ('w node \<times> irq list) option" where
  "deep_sleep_loop i num_sleeps irqs s =
     (if i < num_sleeps
      then (case sleep_mode irqs s of
              None \<Rightarrow> None
            | Some (s, irqs) \<Rightarrow> deep_sleep_loop (i + 1) num_sleeps irqs s)
      else Some (s, irqs))"
  by pat_completeness auto
termination
proof (relation "measure (\<lambda>(i, num_sleeps, irqs, s). unat num_sleeps - unat i)")
  show "wf (measure (\<lambda>(i, num_sleeps, irqs, s). unat num_sleeps - unat i))" by simp
next
  fix i num_sleeps :: uint8_t and irqs :: "irq list" and s :: "'w node" and x2 x y
  assume lt: "i < num_sleeps"
  then have "unat i < unat num_sleeps" by (simp add: word_less_nat_alt)
  moreover have "unat num_sleeps < 256" using unsigned_less [of num_sleeps] by simp
  ultimately have "unat (i + 1) = unat i + 1"
    by (simp add: unat_word_ariths)
  with \<open>unat i < unat num_sleeps\<close>
  show "((i + 1, num_sleeps, y, x), i, num_sleeps, irqs, s)
          \<in> measure (\<lambda>(i, num_sleeps, irqs, s). unat num_sleeps - unat i)"
    by simp
qed

declare deep_sleep_loop.simps [simp del]

text \<open>
  The operands of the sum are C ints; the sum is then narrowed to \<^verbatim>\<open>uint8_t\<close>.
\<close>

definition deep_sleep :: "irq list \<Rightarrow> 'w::len node \<Rightarrow> ('w node \<times> irq list) option" where
  "deep_sleep irqs s =
     (let s = set_sleep_mode SLEEP_MODE_PWR_DOWN s;
          s = wdt_reset s;
          s = out_WDTCR (WDTCR s OR BV WDTIE) s;
          (r, s) = rand_byte s;
          num_sleeps = (word_of_int (SLEEP_TIME div WDT_DURATION + uint (r AND 7)) :: uint8_t)
      in case deep_sleep_loop 0 num_sleeps irqs s of
           None \<Rightarrow> None
         | Some (s, irqs) \<Rightarrow> Some (out_WDTCR (WDTCR s AND NOT (BV WDTIE)) s, irqs))"

section \<open>Manchester transmitter\<close>

text \<open>\<^verbatim>\<open>for (char j = 0; j < 8; j++)\<close> of \<^verbatim>\<open>transmit_byte\<close>.\<close>

function transmit_byte_loop :: "nat \<Rightarrow> uint8_t \<Rightarrow> 'w::len node \<Rightarrow> 'w node" where
  "transmit_byte_loop j b s =
     (if j < 8
      then (let s = (if b AND 1 \<noteq> 0
                     then out_PORTB (PORTB s OR BV TX_PIN) s
                     else out_PORTB (PORTB s AND NOT (BV TX_PIN)) s);
                s = delay_us HALF_BIT_DELAY_TIME_MICROS s;
                s = out_PORTB (PORTB s XOR BV TX_PIN) s;
                s = delay_us HALF_BIT_DELAY_TIME_MICROS s;
                b = drop_bit 1 b
            in transmit_byte_loop (j + 1) b s)
      else s)"
  by pat_completeness auto
termination
  by (relation "measure (\<lambda>(j, b, s). 8 - j)") auto

declare transmit_byte_loop.simps [simp del]

definition transmit_byte :: "uint8_t \<Rightarrow> 'w::len node \<Rightarrow> 'w node" where
  "transmit_byte b s = transmit_byte_loop 0 b s"

text \<open>
  Modelled from the spec: the byte array \<^verbatim>\<open>manchester_data\<close> of the union declared in
  sensor_node.h, which is missing. It is the concatenation of the fields of the packet
  in declaration order, without padding, each multi-byte field low byte first.
\<close>

definition le_bytes :: "'a::len word \<Rightarrow> uint8_t list" where
  "le_bytes w = map (\<lambda>k. ucast (drop_bit (8 * k) w)) [0..<LENGTH('a) div 8]"

definition manchester_data :: "'w::len packet \<Rightarrow> uint8_t list" where
  "manchester_data p =
     [node_id p] @ le_bytes (seq_no p) @ [reading_type p] @ le_bytes (reading p) @ [checksum p]"

definition store_checksum :: "uint8_t \<Rightarrow> 'w::len node \<Rightarrow> 'w node" where
  "store_checksum c s =
     s\<lparr>manchester_union := (manchester_union s)\<lparr>checksum := c\<rparr>,
       events := events s @ [Store_checksum c]\<rparr>"

text \<open>\<^verbatim>\<open>for (int i = 4; i > 0; i--) transmit_byte(0xFF);\<close> The argument is \<open>i\<close>.\<close>

fun preamble_loop :: "nat \<Rightarrow> 'w::len node \<Rightarrow> 'w node" where
  "preamble_loop 0 s = s"
| "preamble_loop (Suc i) s = preamble_loop i (transmit_byte 0xFF s)"

text \<open>\<^verbatim>\<open>for (int i = 0; i < len; i++)\<close> over the bytes of the union.\<close>

function transmit_data_loop :: "nat \<Rightarrow> nat \<Rightarrow> 'w::len node \<Rightarrow> 'w node" where
  "transmit_data_loop i len s =
     (if i < len
      then transmit_data_loop (i + 1) len
             (transmit_byte (manchester_data (manchester_union s) ! i) s)
      else s)"
  by pat_completeness auto
termination
  by (relation "measure (\<lambda>(i, len, s). len - i)") auto

declare transmit_data_loop.simps [simp del]

text \<open>
  \<^verbatim>\<open>calculate_checksum\<close> is declared in the missing sensor_node.h; it is the first
  argument of \<^verbatim>\<open>transmit\<close> here.
\<close>

definition transmit :: "('w::len packet \<Rightarrow> uint8_t) \<Rightarrow> 'w node \<Rightarrow> 'w node" where
  "transmit calculate_checksum s =
     (let s = out_PORTB (PORTB s OR BV RADIO_POWER_PIN) s;
          s = out_DDRB (DDRB s OR BV TX_PIN) s;
          s = delay_us SETTLE_DELAY_MICROS s;
          s = store_checksum (calculate_checksum (manchester_union s)) s;
          s = preamble_loop 4 s;
          s = transmit_byte 0x7F s;
          len = length (manchester_data (manchester_union s));
          s = transmit_data_loop 0 len s;
          s = out_PORTB (PORTB s XOR BV TX_PIN) s;
          s = delay_us HALF_BIT_DELAY_TIME_MICROS s;
          s = out_PORTB (PORTB s AND NOT (BV RADIO_POWER_PIN)) s;
          s = out_DDRB (DDRB s AND NOT (BV TX_PIN)) s
      in out_PORTB (PORTB s AND NOT (BV TX_PIN)) s)"

section \<open>Main control loop\<close>

text \<open>
  One pass through the body of \<^verbatim>\<open>while (1)\<close> in \<^verbatim>\<open>main\<close>. \<^verbatim>\<open>READING_TYPE_TEMP\<close> comes
  from the missing header and is an argument.
\<close>

definition main_loop_body ::
  "('w::len packet \<Rightarrow> uint8_t) \<Rightarrow> uint8_t \<Rightarrow> irq list \<Rightarrow> 'w node \<Rightarrow> ('w node \<times> irq list) option"
  where
  "main_loop_body calculate_checksum READING_TYPE_TEMP irqs s =
     (let s = s\<lparr>manchester_union := (manchester_union s)\<lparr>node_id := NODE_ID\<rparr>\<rparr>;
          s = s\<lparr>manchester_union :=
                  (manchester_union s)\<lparr>seq_no := seq_no (manchester_union s) + 1\<rparr>\<rparr>;
          s = s\<lparr>manchester_union := (manchester_union s)\<lparr>reading_type := READING_TYPE_TEMP\<rparr>\<rparr>
      in case read_temperature irqs s of
           None \<Rightarrow> None
         | Some (r, s, irqs) \<Rightarrow>
             (let s = s\<lparr>manchester_union := (manchester_union s)\<lparr>reading := r\<rparr>\<rparr>;
                  s = transmit calculate_checksum s
              in deep_sleep irqs s))"

section \<open>The line code in the words of the spec\<close>

text \<open>The value of \<^verbatim>\<open>PORTB\<close> that has the transmit pin at level \<open>v\<close> and the other pins as in \<open>p\<close>.\<close>

definition tx_line :: "uint8_t \<Rightarrow> bool \<Rightarrow> uint8_t" where
  "tx_line p v = (if v then set_bit TX_PIN p else unset_bit TX_PIN p)"

text \<open>
  One bit takes two half-bit slots: the pin is put at the level of the bit for the first
  and at the opposite level for the second.
\<close>

definition manchester_bit :: "uint8_t \<Rightarrow> bool \<Rightarrow> event list" where
  "manchester_bit p v =
     [Out_PORTB (tx_line p v), Delay_us HALF_BIT_DELAY_TIME_MICROS,
      Out_PORTB (tx_line p (\<not> v)), Delay_us HALF_BIT_DELAY_TIME_MICROS]"

text \<open>The eight bits of a byte, bit 0 first.\<close>

definition manchester_byte :: "uint8_t \<Rightarrow> uint8_t \<Rightarrow> event list" where
  "manchester_byte p b = concat (map (\<lambda>k. manchester_bit p (bit b k)) [0..<8])"

definition manchester_bytes :: "uint8_t \<Rightarrow> uint8_t list \<Rightarrow> event list" where
  "manchester_bytes p bs = concat (map (manchester_byte p) bs)"

section \<open>Concrete runs\<close>

text \<open>
  An example of a checksum function, for concrete runs only: the sum of the bytes of
  the packet before its last field.
\<close>

definition sum_checksum :: "'w::len packet \<Rightarrow> uint8_t" where
  "sum_checksum p = fold (+) (butlast (manchester_data p)) 0"

text \<open>
  The node as \<^verbatim>\<open>main\<close> hands it to \<^verbatim>\<open>transmit\<close> in the spec's end-to-end scenario:
  node 3, sequence number 1, reading type 1, raw reading 305.
\<close>

definition sample_node :: "16 node" where
  "sample_node = power_on\<lparr>manchester_union :=
     \<lparr>node_id = 3, seq_no = 1, reading_type = 1, reading = 305, checksum = 0\<rparr>\<rparr>"

section \<open>Where the checksum store falls in a transmission\<close>

text \<open>The number of half-bit slots logged before the first store of the checksum.\<close>

fun half_bits_before_store :: "event list \<Rightarrow> nat" where
  "half_bits_before_store [] = 0"
| "half_bits_before_store (Store_checksum c # es) = 0"
| "half_bits_before_store (Delay_us d # es) =
     (if d = HALF_BIT_DELAY_TIME_MICROS then 1 else 0) + half_bits_before_store es"
| "half_bits_before_store (e # es) = half_bits_before_store es"

fun is_store :: "event \<Rightarrow> bool" where
  "is_store (Store_checksum c) = True"
| "is_store e = False"

text \<open>
  The order of the spec's framing steps: the checksum is stored once the preamble, five
  bytes of eight bits of two half-bit slots each, has been sent.
\<close>

definition checksum_stored_after_preamble :: "event list \<Rightarrow> bool" where
  "checksum_stored_after_preamble es = (half_bits_before_store es = 5 * 8 * 2)"

section \<open>The conversion wait in the words of the spec\<close>

text \<open>
  The spec has the wait re-check the completion flag after every wake-up and re-enter the
  low-power state while the flag is not set.
\<close>

fun spec_adc_wait :: "irq list \<Rightarrow> 'w::len node \<Rightarrow> ('w node \<times> irq list) option" where
  "spec_adc_wait [] s = (if adc_done s then Some (s, []) else None)"
| "spec_adc_wait (i # rest) s =
     (if adc_done s then Some (s, i # rest)
      else spec_adc_wait rest (isr i (s\<lparr>events := events s @ [Sleep (sleep_mode_sel s)]\<rparr>)))"

definition spec_do_adc_conversion ::
  "irq list \<Rightarrow> 'w::len node \<Rightarrow> ('w node \<times> irq list) option" where
  "spec_do_adc_conversion irqs s =
     (let s = s\<lparr>adc_done := False\<rparr>;
          s = set_sleep_mode SLEEP_MODE_ADC s
      in case sleep_mode irqs s of
           None \<Rightarrow> None
         | Some (s, irqs) \<Rightarrow>
             (case spec_adc_wait irqs s of
                None \<Rightarrow> None
              | Some (s, irqs) \<Rightarrow> Some (mix_rand (ucast (ADCW s)) s, irqs)))"

section \<open>A run of sleeps\<close>

text \<open>The node after one \<^verbatim>\<open>sleep_mode()\<close> for each interrupt of the list.\<close>

fun sleeps :: "irq list \<Rightarrow> 'w::len node \<Rightarrow> 'w node" where
  "sleeps [] s = s"
| "sleeps (i # rest) s =
     sleeps rest (isr i (s\<lparr>events := events s @ [Sleep (sleep_mode_sel s)]\<rparr>))"

section \<open>Properties of the entropy generator\<close>

lemma test_bit_iff: "(st AND push_bit n 1 \<noteq> 0) = bit st n" for st :: "'a::len word"
  by (simp add: bit_iff_and_push_bit_not_eq_0)

lemma lfsr_shift_spec: "lfsr_shift st = spec_lfsr_step st"
  unfolding lfsr_shift_def spec_lfsr_step_def Let_def lnot_def test_bit_iff
  by (cases "bit st 15"; cases "bit st 13"; cases "bit st 12"; cases "bit st 10"; simp)

lemma rand_loop_funpow: "rand_loop n st = (lfsr_shift ^^ n) st"
  by (induction n arbitrary: st) (simp_all add: funpow_swap1)

lemma funpow_8: "(f ^^ 8) x = f (f (f (f (f (f (f (f x)))))))"
proof -
  have "(8::nat) = Suc (Suc (Suc (Suc (Suc (Suc (Suc (Suc 0)))))))" by simp
  then show ?thesis by (simp only: funpow.simps o_apply id_apply)
qed

lemma bit_spec_lfsr_step_Suc: "n < 15 \<Longrightarrow> bit (spec_lfsr_step st) (Suc n) = bit st n"
  unfolding spec_lfsr_step_def
  by (simp only: bit_or_iff bit_push_bit_iff bit_of_bool_iff) (simp add: bit_simps)

lemma bit_spec_lfsr_step_0:
  "bit (spec_lfsr_step st) 0 = ((bit st 15 \<noteq> bit st 13) \<noteq> (bit st 12 \<noteq> bit st 10))"
  unfolding spec_lfsr_step_def
  by (simp only: bit_or_iff bit_push_bit_iff bit_of_bool_iff) (simp add: bit_simps)

lemma lfsr_shift_nonzero: "st \<noteq> 0 \<Longrightarrow> lfsr_shift st \<noteq> 0"
proof
  assume nz: "st \<noteq> 0" and z: "lfsr_shift st = 0"
  from z have z': "spec_lfsr_step st = 0" by (simp add: lfsr_shift_spec)
  have low: "\<not> bit st n" if "n < 15" for n
    using bit_spec_lfsr_step_Suc[OF that, of st] z' by simp
  from low[of 13] low[of 12] low[of 10] bit_spec_lfsr_step_0[of st] z'
  have "\<not> bit st 15" by simp
  with low have "\<not> bit st n" for n
    by (cases "n < 15"; cases "n = 15") (auto dest: bit_imp_le_length)
  then have "st = 0" by (simp add: bit_eq_iff)
  with nz show False by simp
qed

lemma rand_loop_nonzero: "st \<noteq> 0 \<Longrightarrow> rand_loop i st \<noteq> 0"
  by (induction i arbitrary: st) (simp_all add: lfsr_shift_nonzero)

lemma rand_byte_nonzero: "lfsr_state (snd (rand_byte s)) \<noteq> 0"
  by (simp add: rand_byte_def Let_def rand_loop_nonzero)

lemma rand_calls_nonzero: "lfsr_state s \<noteq> 0 \<Longrightarrow> lfsr_state (rand_calls n s) \<noteq> 0"
  by (induction n arbitrary: s) (simp_all add: rand_byte_nonzero)

lemma extract_bit:
  "n < 16 \<Longrightarrow> (ucast (drop_bit n (st AND push_bit n 1)) :: 8 word) = of_bool (bit st n)"
  for st :: "16 word"
  by (rule bit_eqI) (auto simp add: bit_simps)

lemma of_bool_neq: "((of_bool a :: 8 word) \<noteq> of_bool b) = (a \<noteq> b)"
  by (cases a; cases b) simp_all

lemma mix_rand_eq:
  "mix_rand x s =
     (if bit x 0 \<and> bit (lfsr_state s) 15 \<noteq> bit (lfsr_state s) 3
      then s\<lparr>lfsr_state := flip_bit 15 (flip_bit 3 (lfsr_state s))\<rparr> else s)"
proof -
  have x: "(x AND 1 \<noteq> 0) = bit x 0"
    using test_bit_iff[of x 0] by simp
  show ?thesis
    unfolding mix_rand_def x Let_def
    by (simp only: extract_bit of_bool_neq flip_bit_eq_xor) simp
qed

lemma mix_rand_bits:
  "bit (lfsr_state (mix_rand x s)) n =
     (if (n = 3 \<or> n = 15) \<and> bit x 0 \<and> bit (lfsr_state s) 15 \<noteq> bit (lfsr_state s) 3
      then \<not> bit (lfsr_state s) n else bit (lfsr_state s) n)"
  by (auto simp add: mix_rand_eq bit_flip_bit_iff dest: bit_imp_le_length)

text \<open>
  C4. One call of \<^verbatim>\<open>rand_byte\<close> leaves in \<^verbatim>\<open>lfsr_state\<close> the state of the spec: the
  zero state is first replaced by \<open>0xDEAD\<close>, then the register is stepped exactly eight
  times, each step shifting left by one and inserting the exclusive or of bits 15, 13,
  12 and 10 at the low end. The byte returned is the low eight bits of that state, and no
  other part of the node changes.
\<close>

theorem rand_byte_refines_spec:
  "rand_byte s =
     (ucast (spec_rand_state (lfsr_state s)), s\<lparr>lfsr_state := spec_rand_state (lfsr_state s)\<rparr>)
   \<and> unat (fst (rand_byte s)) = unat (spec_rand_state (lfsr_state s)) mod 256"
proof -
  have st: "rand_loop 8 st = (spec_lfsr_step ^^ 8) st" for st
    unfolding rand_loop_funpow funpow_8 by (simp only: lfsr_shift_spec)
  have eq: "rand_byte s =
     (ucast (spec_rand_state (lfsr_state s)), s\<lparr>lfsr_state := spec_rand_state (lfsr_state s)\<rparr>)"
    by (simp add: rand_byte_def Let_def st spec_rand_state_def)
  have "unat (ucast w :: 8 word) = unat w mod 256" for w :: "16 word"
    by (simp add: unsigned_ucast_eq take_bit_eq_mod)
  with eq show ?thesis by simp
qed

theorem rand_byte_refines_spec_witness:
  "fst (rand_byte (power_on :: 16 node)) = 0x84
   \<and> lfsr_state (snd (rand_byte (power_on :: 16 node))) = 0xAD84"
  using rand_byte_refines_spec [of "power_on :: 16 node"]
  by (simp add: power_on_def spec_rand_state_def funpow_8 spec_lfsr_step_def)

text \<open>
  C5. A shift step never maps a non-zero state to zero. Hence, from a non-zero state,
  no number of calls of \<^verbatim>\<open>rand_byte\<close> without \<^verbatim>\<open>mix_rand\<close> in between reaches the zero
  state, neither between two calls nor after any number of shift steps inside a call.
\<close>

theorem lfsr_never_zero:
  assumes "lfsr_state s \<noteq> 0"
  shows "lfsr_shift (lfsr_state s) \<noteq> 0
    \<and> spec_lfsr_step (lfsr_state s) \<noteq> 0
    \<and> (\<forall>n. lfsr_state (rand_calls n s) \<noteq> 0
          \<and> (\<forall>i. rand_loop i (lfsr_state (rand_calls n s)) \<noteq> 0))"
proof -
  have "lfsr_shift (lfsr_state s) \<noteq> 0"
    using assms by (rule lfsr_shift_nonzero)
  moreover from this have "spec_lfsr_step (lfsr_state s) \<noteq> 0"
    by (simp add: lfsr_shift_spec)
  moreover have "lfsr_state (rand_calls n s) \<noteq> 0" for n
    using assms by (rule rand_calls_nonzero)
  moreover from this have "rand_loop i (lfsr_state (rand_calls n s)) \<noteq> 0" for n i
    by (rule rand_loop_nonzero)
  ultimately show ?thesis by blast
qed

theorem lfsr_never_zero_witness:
  "lfsr_state ((power_on :: 16 node)\<lparr>lfsr_state := 0xACE1\<rparr>) \<noteq> 0
   \<and> lfsr_shift 0xACE1 \<noteq> 0
   \<and> lfsr_state (rand_calls 256 ((power_on :: 16 node)\<lparr>lfsr_state := 0xACE1\<rparr>)) \<noteq> 0"
  using lfsr_never_zero [of "(power_on :: 16 node)\<lparr>lfsr_state := 0xACE1\<rparr>"]
  by simp

text \<open>
  C6. \<^verbatim>\<open>mix_rand\<close> leaves the node unchanged when the low bit of the sample is clear or
  when bits 15 and 3 of the state agree; otherwise it flips exactly those two bits. In
  every case each other bit of the state, and each other part of the node, is unchanged.
\<close>

theorem mix_rand_flips_only_bits_15_and_3:
  "mix_rand x s =
     (if bit x 0 \<and> bit (lfsr_state s) 15 \<noteq> bit (lfsr_state s) 3
      then s\<lparr>lfsr_state := flip_bit 15 (flip_bit 3 (lfsr_state s))\<rparr> else s)
   \<and> (\<forall>n. bit (lfsr_state (mix_rand x s)) n =
         (if (n = 3 \<or> n = 15) \<and> bit x 0 \<and> bit (lfsr_state s) 15 \<noteq> bit (lfsr_state s) 3
          then \<not> bit (lfsr_state s) n else bit (lfsr_state s) n))"
  using mix_rand_eq [of x s] mix_rand_bits [of x s] by blast

theorem mix_rand_flips_only_bits_15_and_3_witness:
  "mix_rand 1 ((power_on :: 16 node)\<lparr>lfsr_state := 0x8001\<rparr>)
     = (power_on :: 16 node)\<lparr>lfsr_state := 0x0009\<rparr>
   \<and> mix_rand 2 ((power_on :: 16 node)\<lparr>lfsr_state := 0x8001\<rparr>)
     = (power_on :: 16 node)\<lparr>lfsr_state := 0x8001\<rparr>"
  using mix_rand_flips_only_bits_15_and_3 [of 1 "(power_on :: 16 node)\<lparr>lfsr_state := 0x8001\<rparr>"]
    mix_rand_flips_only_bits_15_and_3 [of 2 "(power_on :: 16 node)\<lparr>lfsr_state := 0x8001\<rparr>"]
  by (simp add: flip_bit_eq_xor)

text \<open>
  C10. \<^verbatim>\<open>mix_rand\<close> keeps a non-zero state non-zero: it flips bits 15 and 3 only when
  they differ, and then they still differ, so one of them is set.
\<close>

theorem mix_rand_preserves_nonzero:
  assumes "lfsr_state s \<noteq> 0"
  shows "lfsr_state (mix_rand x s) \<noteq> 0"
proof (cases "bit x 0 \<and> bit (lfsr_state s) 15 \<noteq> bit (lfsr_state s) 3")
  case False
  then have "mix_rand x s = s" by (subst mix_rand_eq) (rule if_not_P)
  with assms show ?thesis by simp
next
  case True
  let ?st = "flip_bit 15 (flip_bit 3 (lfsr_state s))"
  from True have "bit ?st 15 \<noteq> bit ?st 3"
    by (simp add: bit_flip_bit_iff)
  then have "?st \<noteq> 0" by auto
  moreover from True have "mix_rand x s = s\<lparr>lfsr_state := ?st\<rparr>"
    by (subst mix_rand_eq) (rule if_P)
  ultimately show ?thesis by simp
qed

theorem mix_rand_preserves_nonzero_witness:
  "lfsr_state ((power_on :: 16 node)\<lparr>lfsr_state := 0x8000\<rparr>) \<noteq> 0
   \<and> lfsr_state (mix_rand 1 ((power_on :: 16 node)\<lparr>lfsr_state := 0x8000\<rparr>)) = 0x0008"
proof -
  have "lfsr_state (mix_rand 1 ((power_on :: 16 node)\<lparr>lfsr_state := 0x8000\<rparr>)) \<noteq> 0"
    using mix_rand_preserves_nonzero [of "(power_on :: 16 node)\<lparr>lfsr_state := 0x8000\<rparr>" 1]
    by simp
  then show ?thesis by (simp add: mix_rand_def)
qed


section \<open>Properties of the transmitter\<close>

lemma bit_tx_line: "bit (tx_line p v) n = (if n = TX_PIN then v else bit p n)"
  by (auto simp add: tx_line_def TX_PIN_def bit_set_bit_iff bit_unset_bit_iff)

lemma or_BV_TX: "p OR BV TX_PIN = tx_line p True"
  by (simp add: tx_line_def BV_def set_bit_eq_or)

lemma and_not_BV_TX: "p AND NOT (BV TX_PIN) = tx_line p False"
  by (simp add: tx_line_def BV_def unset_bit_eq_and_not)

lemma xor_BV_TX: "tx_line p v XOR BV TX_PIN = tx_line p (\<not> v)"
  unfolding BV_def flip_bit_eq_xor [symmetric]
  by (rule bit_eqI) (auto simp add: bit_tx_line bit_flip_bit_iff)

lemma tx_line_tx_line: "tx_line (tx_line p a) b = tx_line p b"
  by (rule bit_eqI) (simp add: bit_tx_line)

lemma manchester_bit_tx_line: "manchester_bit (tx_line p a) v = manchester_bit p v"
  by (simp add: manchester_bit_def tx_line_tx_line)

lemma low_bit: "(b AND 1 \<noteq> 0) = bit b 0" for b :: uint8_t
  using test_bit_iff[of b 0] by simp

lemma transmit_byte_loop_aux:
  "n \<le> 8 \<Longrightarrow> transmit_byte_loop (8 - n) b s =
     s\<lparr>PORTB := (if n = 0 then PORTB s else tx_line (PORTB s) (\<not> bit b (n - 1))),
       events := events s @ concat (map (\<lambda>k. manchester_bit (PORTB s) (bit b k)) [0..<n])\<rparr>"
proof (induction n arbitrary: b s)
  case 0
  show ?case by (subst transmit_byte_loop.simps) simp
next
  case (Suc n)
  then have n: "n \<le> 8" and j: "8 - Suc n < 8" and j1: "8 - Suc n + 1 = 8 - n" by simp_all
  have up: "[0..<Suc n] = 0 # map Suc [0..<n]"
    by (simp only: upt_conv_Cons [OF zero_less_Suc] map_Suc_upt)
  show ?case
    apply (subst transmit_byte_loop.simps)
    apply (simp only: j if_True Let_def j1 Suc.IH[OF n] up)
    apply (cases "bit b 0")
     apply (simp_all add: low_bit out_PORTB_def delay_us_def or_BV_TX and_not_BV_TX xor_BV_TX
        manchester_bit_tx_line bit_drop_bit_eq o_def)
     apply (simp_all add: manchester_bit_def tx_line_tx_line)
    done
qed


lemma transmit_byte_eq:
  "transmit_byte b s =
     s\<lparr>PORTB := tx_line (PORTB s) (\<not> bit b 7),
       events := events s @ manchester_byte (PORTB s) b\<rparr>"
  using transmit_byte_loop_aux [of 8 b s]
  by (simp add: transmit_byte_def manchester_byte_def)

lemma manchester_byte_tx_line: "manchester_byte (tx_line p a) = manchester_byte p"
  by (rule ext) (simp add: manchester_byte_def manchester_bit_tx_line)

lemma manchester_bytes_tx_line: "manchester_bytes (tx_line p a) bs = manchester_bytes p bs"
  by (simp only: manchester_bytes_def manchester_byte_tx_line)

lemma manchester_bytes_Cons:
  "manchester_bytes p (b # bs) = manchester_byte p b @ manchester_bytes p bs"
  by (simp add: manchester_bytes_def)

lemma manchester_bytes_append:
  "manchester_bytes p (as @ bs) = manchester_bytes p as @ manchester_bytes p bs"
  by (simp add: manchester_bytes_def)

lemma fold_transmit_byte:
  "fold transmit_byte bs s =
     s\<lparr>PORTB := (if bs = [] then PORTB s else tx_line (PORTB s) (\<not> bit (last bs) 7)),
       events := events s @ manchester_bytes (PORTB s) bs\<rparr>"
proof (induction bs arbitrary: s)
  case Nil
  show ?case by (simp add: manchester_bytes_def)
next
  case (Cons b bs)
  have "fold transmit_byte (b # bs) s = fold transmit_byte bs (transmit_byte b s)"
    by simp
  also have "\<dots> = (transmit_byte b s)
      \<lparr>PORTB := (if bs = [] then PORTB (transmit_byte b s)
                  else tx_line (PORTB (transmit_byte b s)) (\<not> bit (last bs) 7)),
       events := events (transmit_byte b s) @ manchester_bytes (PORTB (transmit_byte b s)) bs\<rparr>"
    by (rule Cons.IH)
  also have "\<dots> = s\<lparr>PORTB := tx_line (PORTB s) (\<not> bit (last (b # bs)) 7),
       events := events s @ manchester_bytes (PORTB s) (b # bs)\<rparr>"
    by (simp add: transmit_byte_eq manchester_bytes_Cons manchester_bytes_tx_line
        tx_line_tx_line)
  finally show ?case by simp
qed

lemma preamble_loop_fold: "preamble_loop i s = fold transmit_byte (replicate i 0xFF) s"
  by (induction i arbitrary: s) simp_all

lemma manchester_union_transmit_byte [simp]:
  "manchester_union (transmit_byte b s) = manchester_union s"
  by (simp add: transmit_byte_eq)

lemma transmit_data_loop_fold:
  "len = length (manchester_data (manchester_union s)) \<Longrightarrow>
   transmit_data_loop i len s = fold transmit_byte (drop i (manchester_data (manchester_union s))) s"
proof (induction i len s rule: transmit_data_loop.induct)
  case (1 i len s)
  show ?case
  proof (cases "i < len")
    case True
    with "1.prems" have d: "drop i (manchester_data (manchester_union s))
        = manchester_data (manchester_union s) ! i # drop (i + 1) (manchester_data (manchester_union s))"
      by (simp add: Cons_nth_drop_Suc)
    from "1.IH" [OF True] "1.prems" True show ?thesis
      by (subst transmit_data_loop.simps) (simp add: d)
  next
    case False
    with "1.prems" show ?thesis
      by (subst transmit_data_loop.simps) simp
  qed
qed

lemma last_manchester_data: "last (manchester_data p) = checksum p"
  by (simp add: manchester_data_def)

lemma manchester_data_nonempty: "manchester_data p \<noteq> []"
  by (simp add: manchester_data_def)

lemma transmit_eq:
  fixes s :: "'w::len node" and calculate_checksum :: "'w packet \<Rightarrow> uint8_t"
  defines "p0 \<equiv> PORTB s OR BV RADIO_POWER_PIN"
    and "c \<equiv> calculate_checksum (manchester_union s)"
  defines "pkt \<equiv> (manchester_union s)\<lparr>checksum := c\<rparr>"
    and "p1 \<equiv> tx_line p0 (bit c 7)"
  shows "transmit calculate_checksum s =
     s\<lparr>PORTB := (p1 AND NOT (BV RADIO_POWER_PIN)) AND NOT (BV TX_PIN),
       DDRB := (DDRB s OR BV TX_PIN) AND NOT (BV TX_PIN),
       manchester_union := pkt,
       events := events s
         @ [Out_PORTB p0, Out_DDRB (DDRB s OR BV TX_PIN), Delay_us SETTLE_DELAY_MICROS,
            Store_checksum c]
         @ manchester_bytes p0 ([0xFF, 0xFF, 0xFF, 0xFF, 0x7F] @ manchester_data pkt)
         @ [Out_PORTB p1, Delay_us HALF_BIT_DELAY_TIME_MICROS,
            Out_PORTB (p1 AND NOT (BV RADIO_POWER_PIN)),
            Out_DDRB ((DDRB s OR BV TX_PIN) AND NOT (BV TX_PIN)),
            Out_PORTB ((p1 AND NOT (BV RADIO_POWER_PIN)) AND NOT (BV TX_PIN))]\<rparr>"
proof -
  have four: "(4::nat) = Suc (Suc (Suc (Suc 0)))" by simp
  have pre: "replicate 4 (0xFF :: uint8_t) @ [0x7F] = [0xFF, 0xFF, 0xFF, 0xFF, 0x7F]"
    by (simp add: four)
  show ?thesis
    unfolding transmit_def Let_def preamble_loop_fold
    apply (simp add: transmit_data_loop_fold)
    apply (simp add: fold_transmit_byte transmit_byte_eq four manchester_data_nonempty
        last_manchester_data out_PORTB_def out_DDRB_def delay_us_def store_checksum_def
        manchester_bytes_Cons manchester_bytes_append manchester_bytes_tx_line manchester_byte_tx_line
        tx_line_tx_line xor_BV_TX p0_def c_def pkt_def p1_def)
    done
qed

lemma or_BV: "x OR BV n = set_bit n x"
  by (simp add: BV_def set_bit_eq_or)

lemma and_not_BV: "x AND NOT (BV n) = unset_bit n x"
  by (simp add: BV_def unset_bit_eq_and_not)

lemma is_store_manchester_bytes: "filter is_store (manchester_bytes p bs) = []"
  by (induction bs)
    (simp_all add: manchester_bytes_def manchester_byte_def manchester_bit_def filter_concat)

text \<open>
  C2. \<^verbatim>\<open>transmit_byte\<close> sends the eight bits of the byte from bit 0 up. For each bit it
  writes the transmit pin at the level of the bit (high for 1, low for 0), waits one
  half-bit time, writes the opposite level, and waits the same half-bit time again. No
  other pin of the port and no other part of the node changes.
\<close>

theorem transmit_byte_manchester:
  "transmit_byte b s =
     s\<lparr>PORTB := tx_line (PORTB s) (\<not> bit b 7),
       events := events s @ manchester_byte (PORTB s) b\<rparr>
   \<and> manchester_byte (PORTB s) b =
       concat (map (\<lambda>k. [Out_PORTB (tx_line (PORTB s) (bit b k)), Delay_us 500,
                          Out_PORTB (tx_line (PORTB s) (\<not> bit b k)), Delay_us 500])
                   [0..<8])
   \<and> (\<forall>v n. bit (tx_line (PORTB s) v) n = (if n = TX_PIN then v else bit (PORTB s) n))"
  by (simp add: transmit_byte_eq manchester_byte_def manchester_bit_def bit_tx_line
      HALF_BIT_DELAY_TIME_MICROS_def)

theorem transmit_byte_manchester_witness:
  "events (transmit_byte 0x7F (power_on :: 16 node)) =
     concat (map (\<lambda>v. [Out_PORTB (if v then 8 else 0), Delay_us 500,
                        Out_PORTB (if v then 0 else 8), Delay_us 500])
                 [True, True, True, True, True, True, True, False])"
  using transmit_byte_manchester [of "0x7F" "power_on :: 16 node"]
  by (simp add: power_on_def tx_line_def TX_PIN_def upt_rec
      set_bit_eq_or unset_bit_eq_and_not)

text \<open>
  C1. After powering up the radio, enabling the line driver, waiting 100 us and storing
  the checksum, \<^verbatim>\<open>transmit\<close> puts on the line, in this order and with nothing in
  between: four bytes \<open>0xFF\<close>, one byte \<open>0x7F\<close>, every byte of the packet in the order of
  its fields (the checksum being the one just stored), and one more toggle of the pin held
  for one half-bit time. It then clears the radio power pin, makes the transmit pin an
  input and clears its output latch. During the frame the radio is on and the pin is an
  output.
\<close>

theorem transmit_frame:
  fixes s :: "'w::len node" and calculate_checksum :: "'w packet \<Rightarrow> uint8_t"
  defines "p0 \<equiv> PORTB s OR BV RADIO_POWER_PIN"
    and "d0 \<equiv> DDRB s OR BV TX_PIN"
    and "c \<equiv> calculate_checksum (manchester_union s)"
  defines "pkt \<equiv> (manchester_union s)\<lparr>checksum := c\<rparr>"
    and "p1 \<equiv> tx_line p0 (bit c 7)"
  shows "events (transmit calculate_checksum s) =
       events s
       @ [Out_PORTB p0, Out_DDRB d0, Delay_us 100, Store_checksum c]
       @ manchester_bytes p0 ([0xFF, 0xFF, 0xFF, 0xFF, 0x7F] @ manchester_data pkt)
       @ [Out_PORTB p1, Delay_us 500]
       @ [Out_PORTB (p1 AND NOT (BV RADIO_POWER_PIN)),
          Out_DDRB (d0 AND NOT (BV TX_PIN)),
          Out_PORTB ((p1 AND NOT (BV RADIO_POWER_PIN)) AND NOT (BV TX_PIN))]
     \<and> manchester_data pkt =
         [node_id (manchester_union s)] @ le_bytes (seq_no (manchester_union s))
         @ [reading_type (manchester_union s)] @ le_bytes (reading (manchester_union s)) @ [c]
     \<and> bit p0 RADIO_POWER_PIN \<and> bit d0 TX_PIN
     \<and> bit p1 TX_PIN = bit c 7
     \<and> \<not> bit (PORTB (transmit calculate_checksum s)) RADIO_POWER_PIN
     \<and> \<not> bit (DDRB (transmit calculate_checksum s)) TX_PIN
     \<and> \<not> bit (PORTB (transmit calculate_checksum s)) TX_PIN"
proof -
  have "\<not> bit (PORTB (transmit calculate_checksum s)) RADIO_POWER_PIN"
    by (simp add: transmit_eq and_not_BV bit_unset_bit_iff)
  moreover have "\<not> bit (DDRB (transmit calculate_checksum s)) TX_PIN"
    by (simp add: transmit_eq and_not_BV bit_unset_bit_iff)
  moreover have "\<not> bit (PORTB (transmit calculate_checksum s)) TX_PIN"
    by (simp add: transmit_eq and_not_BV bit_unset_bit_iff)
  moreover have "bit p0 RADIO_POWER_PIN" "bit d0 TX_PIN"
    by (simp_all add: p0_def d0_def or_BV bit_set_bit_iff RADIO_POWER_PIN_def TX_PIN_def)
  moreover have "bit p1 TX_PIN = bit c 7"
    by (simp add: p1_def bit_tx_line)
  moreover have "manchester_data pkt =
         [node_id (manchester_union s)] @ le_bytes (seq_no (manchester_union s))
         @ [reading_type (manchester_union s)] @ le_bytes (reading (manchester_union s)) @ [c]"
    by (simp add: pkt_def manchester_data_def)
  moreover have "events (transmit calculate_checksum s) =
       events s
       @ [Out_PORTB p0, Out_DDRB d0, Delay_us 100, Store_checksum c]
       @ manchester_bytes p0 ([0xFF, 0xFF, 0xFF, 0xFF, 0x7F] @ manchester_data pkt)
       @ [Out_PORTB p1, Delay_us 500]
       @ [Out_PORTB (p1 AND NOT (BV RADIO_POWER_PIN)),
          Out_DDRB (d0 AND NOT (BV TX_PIN)),
          Out_PORTB ((p1 AND NOT (BV RADIO_POWER_PIN)) AND NOT (BV TX_PIN))]"
    by (simp add: transmit_eq p0_def d0_def c_def pkt_def p1_def
        SETTLE_DELAY_MICROS_def HALF_BIT_DELAY_TIME_MICROS_def)
  ultimately show ?thesis by (simp only: simp_thms)
qed


lemma sum_checksum_sample: "sum_checksum (manchester_union sample_node) = 55"
  by (simp add: sum_checksum_def sample_node_def manchester_data_def le_bytes_def upt_rec)

theorem transmit_frame_witness:
  "events (transmit sum_checksum sample_node) =
     [Out_PORTB 2, Out_DDRB 8, Delay_us 100, Store_checksum 55]
     @ manchester_bytes 2 [0xFF, 0xFF, 0xFF, 0xFF, 0x7F, 3, 1, 0, 1, 49, 1, 55]
     @ [Out_PORTB 2, Delay_us 500, Out_PORTB 0, Out_DDRB 0, Out_PORTB 0]"
proof -
  have "events sample_node = []" "PORTB sample_node = 0" "DDRB sample_node = 0"
    by (simp_all add: sample_node_def power_on_def)
  moreover have "manchester_data ((manchester_union sample_node)\<lparr>checksum := 55\<rparr>)
      = [3, 1, 0, 1, 49, 1, 55]"
    by (simp add: sample_node_def manchester_data_def le_bytes_def upt_rec)
  moreover have "tx_line (0 OR BV RADIO_POWER_PIN) (bit (55 :: uint8_t) 7) = 2"
    by (simp add: tx_line_def BV_def RADIO_POWER_PIN_def TX_PIN_def unset_bit_eq_and_not)
  moreover have "(0 OR BV RADIO_POWER_PIN) = 2" "(0 OR BV TX_PIN) = 8"
    "(2::uint8_t) AND NOT (BV RADIO_POWER_PIN) = 0" "(8::uint8_t) AND NOT (BV TX_PIN) = 0"
    "(0::uint8_t) AND NOT (BV TX_PIN) = 0"
    by (simp_all add: BV_def RADIO_POWER_PIN_def TX_PIN_def)
  ultimately show ?thesis
    using transmit_frame [where s = sample_node and calculate_checksum = sum_checksum]
    by (simp add: sum_checksum_sample)
qed

text \<open>
  C8, as stated, requires the five preamble bytes to be on the line before the checksum
  is stored. In the sample transmission the store comes before any half-bit slot.
\<close>

theorem checksum_stored_after_preamble_counterexample:
  "\<not> checksum_stored_after_preamble (events (transmit sum_checksum sample_node))"
proof -
  have "events sample_node = []"
    by (simp add: sample_node_def power_on_def)
  then have "half_bits_before_store (events (transmit sum_checksum sample_node)) = 0"
    by (simp add: transmit_eq SETTLE_DELAY_MICROS_def HALF_BIT_DELAY_TIME_MICROS_def)
  then show ?thesis by (simp add: checksum_stored_after_preamble_def)
qed

text \<open>
  C8, amended. In every transmission the checksum is computed from the packet as it is
  on entry and stored right after the settle delay, before the first half-bit slot of the
  preamble. It is the only store into the packet during the transmission, so the bytes
  sent after the preamble are those of the packet on entry with that checksum.
\<close>

theorem checksum_stored_before_preamble:
  fixes s :: "'w::len node" and calculate_checksum :: "'w packet \<Rightarrow> uint8_t"
  defines "c \<equiv> calculate_checksum (manchester_union s)"
    and "sent \<equiv> drop (length (events s)) (events (transmit calculate_checksum s))"
  shows "take 4 sent =
       [Out_PORTB (PORTB s OR BV RADIO_POWER_PIN), Out_DDRB (DDRB s OR BV TX_PIN),
        Delay_us 100, Store_checksum c]
     \<and> half_bits_before_store sent = 0
     \<and> filter is_store sent = [Store_checksum c]
     \<and> manchester_union (transmit calculate_checksum s) = (manchester_union s)\<lparr>checksum := c\<rparr>
     \<and> drop 4 sent =
         manchester_bytes (PORTB s OR BV RADIO_POWER_PIN)
           ([0xFF, 0xFF, 0xFF, 0xFF, 0x7F] @ manchester_data ((manchester_union s)\<lparr>checksum := c\<rparr>))
         @ drop (length sent - 5) sent"
proof -
  have sent: "sent =
       [Out_PORTB (PORTB s OR BV RADIO_POWER_PIN), Out_DDRB (DDRB s OR BV TX_PIN),
        Delay_us 100, Store_checksum c]
       @ manchester_bytes (PORTB s OR BV RADIO_POWER_PIN)
           ([0xFF, 0xFF, 0xFF, 0xFF, 0x7F] @ manchester_data ((manchester_union s)\<lparr>checksum := c\<rparr>))
       @ [Out_PORTB (tx_line (PORTB s OR BV RADIO_POWER_PIN) (bit c 7)), Delay_us 500,
          Out_PORTB (tx_line (PORTB s OR BV RADIO_POWER_PIN) (bit c 7) AND NOT (BV RADIO_POWER_PIN)),
          Out_DDRB ((DDRB s OR BV TX_PIN) AND NOT (BV TX_PIN)),
          Out_PORTB ((tx_line (PORTB s OR BV RADIO_POWER_PIN) (bit c 7)
                       AND NOT (BV RADIO_POWER_PIN)) AND NOT (BV TX_PIN))]"
    by (simp add: sent_def c_def transmit_eq SETTLE_DELAY_MICROS_def HALF_BIT_DELAY_TIME_MICROS_def)
  have "take 4 sent =
       [Out_PORTB (PORTB s OR BV RADIO_POWER_PIN), Out_DDRB (DDRB s OR BV TX_PIN),
        Delay_us 100, Store_checksum c]"
    by (subst sent) simp
  moreover have "half_bits_before_store sent = 0"
    by (subst sent) (simp add: HALF_BIT_DELAY_TIME_MICROS_def)
  moreover have "filter is_store sent = [Store_checksum c]"
    by (subst sent) (simp add: is_store_manchester_bytes)
  moreover have "manchester_union (transmit calculate_checksum s) = (manchester_union s)\<lparr>checksum := c\<rparr>"
    by (simp add: transmit_eq c_def)
  moreover have "drop 4 sent =
         manchester_bytes (PORTB s OR BV RADIO_POWER_PIN)
           ([0xFF, 0xFF, 0xFF, 0xFF, 0x7F] @ manchester_data ((manchester_union s)\<lparr>checksum := c\<rparr>))
         @ drop (length sent - 5) sent"
    by (subst (1 2 3) sent) simp
  ultimately show ?thesis by (simp only: simp_thms)
qed

theorem checksum_stored_before_preamble_witness:
  "take 4 (events (transmit sum_checksum sample_node)) =
     [Out_PORTB 2, Out_DDRB 8, Delay_us 100, Store_checksum 55]
   \<and> half_bits_before_store (events (transmit sum_checksum sample_node)) = 0
   \<and> checksum (manchester_union (transmit sum_checksum sample_node)) = 55"
proof -
  have "events sample_node = []" "PORTB sample_node = 0" "DDRB sample_node = 0"
    by (simp_all add: sample_node_def power_on_def)
  moreover have "(0 OR BV RADIO_POWER_PIN) = 2" "(0 OR BV TX_PIN) = 8"
    by (simp_all add: BV_def RADIO_POWER_PIN_def TX_PIN_def)
  ultimately show ?thesis
    using checksum_stored_before_preamble [where s = sample_node and calculate_checksum = sum_checksum]
    by (simp add: sum_checksum_sample)
qed


section \<open>Properties of the analog sampler\<close>

lemma adc_wait_done: "adc_done s \<Longrightarrow> adc_wait irqs s = Some (s, irqs)"
  by (cases irqs) simp_all

lemma adc_wait_until_ADC:
  "\<not> adc_done s \<Longrightarrow>
   adc_wait (replicate m WDT_vect @ ADC_vect v # rest) s = Some (s\<lparr>ADCW := v, adc_done := True\<rparr>, rest)"
  by (induction m) (simp_all add: adc_wait_done)

lemma adc_wait_only_WDT: "\<not> adc_done s \<Longrightarrow> adc_wait (replicate m WDT_vect) s = None"
  by (induction m) simp_all

lemma do_adc_conversion_eq:
  "do_adc_conversion (replicate m WDT_vect @ ADC_vect v # rest) s =
     Some (mix_rand (ucast v)
             (s\<lparr>ADCW := v, adc_done := True, sleep_mode_sel := SLEEP_MODE_ADC,
                events := events s @ [Set_sleep_mode SLEEP_MODE_ADC, Sleep SLEEP_MODE_ADC]\<rparr>),
           rest)"
proof (cases m)
  case 0
  then show ?thesis
    by (simp add: do_adc_conversion_def sleep_mode_def set_sleep_mode_def adc_wait_done mix_rand_eq Let_def)
next
  case (Suc k)
  then show ?thesis
    by (simp add: do_adc_conversion_def sleep_mode_def set_sleep_mode_def adc_wait_until_ADC mix_rand_eq Let_def)
qed

lemma do_adc_conversion_only_WDT: "do_adc_conversion (replicate m WDT_vect) s = None"
  by (cases m) (simp_all add: do_adc_conversion_def sleep_mode_def set_sleep_mode_def adc_wait_only_WDT)

lemma mix_rand_fields [simp]:
  "events (mix_rand x s) = events s" "PORTB (mix_rand x s) = PORTB s"
  "ADCSRA (mix_rand x s) = ADCSRA s" "ADCW (mix_rand x s) = ADCW s"
  "manchester_union (mix_rand x s) = manchester_union s"
  by (simp_all add: mix_rand_eq)

lemma events_power_on: "events (power_on :: 'w::len node) = []"
  by (simp add: power_on_def)


text \<open>
  C9, as stated, has the wait re-enter the low-power state when it is woken with the
  flag unset. Woken once by the watchdog before the conversion completes, the code
  enters the sleep state once where the wait of the spec enters it twice.
\<close>

theorem do_adc_conversion_resleep_counterexample:
  "map_option (events \<circ> fst) (do_adc_conversion [WDT_vect, ADC_vect 305] (power_on :: 16 node))
     = Some [Set_sleep_mode SLEEP_MODE_ADC, Sleep SLEEP_MODE_ADC]
   \<and> map_option (events \<circ> fst) (spec_do_adc_conversion [WDT_vect, ADC_vect 305] (power_on :: 16 node))
     = Some [Set_sleep_mode SLEEP_MODE_ADC, Sleep SLEEP_MODE_ADC, Sleep SLEEP_MODE_ADC]
   \<and> do_adc_conversion [WDT_vect, ADC_vect 305] (power_on :: 16 node)
     \<noteq> spec_do_adc_conversion [WDT_vect, ADC_vect 305] (power_on :: 16 node)"
proof -
  have a: "map_option (events \<circ> fst) (do_adc_conversion [WDT_vect, ADC_vect 305] (power_on :: 16 node))
     = Some [Set_sleep_mode SLEEP_MODE_ADC, Sleep SLEEP_MODE_ADC]"
    using do_adc_conversion_eq [of "Suc 0" 305 "[]" "power_on :: 16 node"]
    by (simp add: events_power_on)
  have b: "map_option (events \<circ> fst) (spec_do_adc_conversion [WDT_vect, ADC_vect 305] (power_on :: 16 node))
     = Some [Set_sleep_mode SLEEP_MODE_ADC, Sleep SLEEP_MODE_ADC, Sleep SLEEP_MODE_ADC]"
    by (simp add: spec_do_adc_conversion_def sleep_mode_def set_sleep_mode_def Let_def
        events_power_on)
  from a b have "do_adc_conversion [WDT_vect, ADC_vect 305] (power_on :: 16 node)
     \<noteq> spec_do_adc_conversion [WDT_vect, ADC_vect 305] (power_on :: 16 node)"
    by auto
  with a b show ?thesis by (simp only: simp_thms)
qed

text \<open>
  C9, amended. \<^verbatim>\<open>do_adc_conversion\<close> enters the sleep state once. Woken by any number of
  unrelated interrupts, it does not sleep again: it stays awake in the loop that
  re-checks the flag, and goes on only when the conversion-complete interrupt has set the
  flag. While only unrelated interrupts arrive it does not return.
\<close>

theorem do_adc_conversion_sleeps_once:
  "do_adc_conversion (replicate m WDT_vect @ ADC_vect v # rest) s =
     Some (mix_rand (ucast v)
             (s\<lparr>ADCW := v, adc_done := True, sleep_mode_sel := SLEEP_MODE_ADC,
                events := events s @ [Set_sleep_mode SLEEP_MODE_ADC, Sleep SLEEP_MODE_ADC]\<rparr>),
           rest)
   \<and> do_adc_conversion (replicate m WDT_vect) s = None"
  using do_adc_conversion_eq [of m v rest s] do_adc_conversion_only_WDT [of m s] by simp

theorem do_adc_conversion_sleeps_once_witness:
  "map_option (events \<circ> fst) (do_adc_conversion [WDT_vect, WDT_vect, ADC_vect 305] (power_on :: 16 node))
     = Some [Set_sleep_mode SLEEP_MODE_ADC, Sleep SLEEP_MODE_ADC]
   \<and> do_adc_conversion [WDT_vect, WDT_vect] (power_on :: 16 node) = None"
  using do_adc_conversion_sleeps_once [of "Suc (Suc 0)" 305 "[]" "power_on :: 16 node"]
  by (simp add: events_power_on)

text \<open>
  C3. Let the first conversion complete with \<open>v1\<close> and the second with \<open>v2\<close>, each after
  any number of unrelated wake-ups. Then \<^verbatim>\<open>read_temperature\<close> powers the sensor up,
  writes the converter's reference and channel, then its enable bit, completion interrupt
  and prescaler, runs the two conversions, clears the converter's enable bit and powers
  the sensor down, in this order, and returns \<open>v2\<close> as it is, all sixteen bits of it.
  \<open>v1\<close> only reaches \<^verbatim>\<open>mix_rand\<close>. If the second conversion does not complete, nothing
  is returned.
\<close>

theorem read_temperature_second_conversion:
  "(\<exists>s'. read_temperature
          (replicate m WDT_vect @ ADC_vect v1 # replicate n WDT_vect @ ADC_vect v2 # rest) s
          = Some (v2, s', rest)
      \<and> events s' = events s
          @ [Out_PORTB (PORTB s OR BV TEMP_SENSE_POWER_PIN),
             Out_ADMUX (BV REFS0 OR TEMP_SENSE_INPUT_AN_PIN),
             Out_ADCSRA (BV ADEN OR BV ADIE OR 6),
             Set_sleep_mode SLEEP_MODE_ADC, Sleep SLEEP_MODE_ADC,
             Set_sleep_mode SLEEP_MODE_ADC, Sleep SLEEP_MODE_ADC,
             Out_ADCSRA ((BV ADEN OR BV ADIE OR 6) AND NOT (BV ADEN)),
             Out_PORTB ((PORTB s OR BV TEMP_SENSE_POWER_PIN) AND NOT (BV TEMP_SENSE_POWER_PIN))]
      \<and> lfsr_state s' = lfsr_state (mix_rand (ucast v2) (mix_rand (ucast v1) s))
      \<and> manchester_union s' = manchester_union s
      \<and> \<not> bit (ADCSRA s') ADEN \<and> \<not> bit (PORTB s') TEMP_SENSE_POWER_PIN)
   \<and> read_temperature (replicate m WDT_vect @ ADC_vect v1 # replicate n WDT_vect) s = None"
  (is "?returns \<and> _")
proof -
  have "read_temperature (replicate m WDT_vect @ ADC_vect v1 # replicate n WDT_vect) s = None"
    by (simp add: read_temperature_def Let_def do_adc_conversion_eq do_adc_conversion_only_WDT)
  moreover have "?returns"
    apply (simp add: read_temperature_def Let_def do_adc_conversion_eq)
    apply (simp add: out_PORTB_def out_ADMUX_def out_ADCSRA_def and_not_BV bit_unset_bit_iff)
    apply (simp add: mix_rand_eq)
    done
  ultimately show ?thesis by (simp only: simp_thms)
qed

theorem read_temperature_second_conversion_witness:
  "map_option fst (read_temperature [ADC_vect 300, ADC_vect 305] (power_on :: 16 node)) = Some 305
   \<and> map_option fst (read_temperature [WDT_vect, ADC_vect 300, WDT_vect, ADC_vect 305] (power_on :: 16 node))
       = Some 305"
proof -
  obtain s' where "read_temperature [ADC_vect 300, ADC_vect 305] (power_on :: 16 node) = Some (305, s', [])"
    using read_temperature_second_conversion [of 0 300 0 305 "[]" "power_on :: 16 node"]
    by auto
  moreover
  obtain s'' where "read_temperature [WDT_vect, ADC_vect 300, WDT_vect, ADC_vect 305] (power_on :: 16 node)
      = Some (305, s'', [])"
    using read_temperature_second_conversion [of "Suc 0" 300 "Suc 0" 305 "[]" "power_on :: 16 node"]
    by auto
  ultimately show ?thesis by simp
qed

section \<open>Properties of the sleep scheduler\<close>

lemma sleeps_fields [simp]:
  "sleep_mode_sel (sleeps irqs s) = sleep_mode_sel s"
  "WDTCR (sleeps irqs s) = WDTCR s"
  "events (sleeps irqs s) = events s @ replicate (length irqs) (Sleep (sleep_mode_sel s))"
proof (induction irqs arbitrary: s)
  case Nil
  { case 1 show ?case by simp next
    case 2 show ?case by simp next
    case 3 show ?case by simp }
next
  case (Cons i irqs)
  { case 1 show ?case by (cases i) (simp_all add: Cons.IH) next
    case 2 show ?case by (cases i) (simp_all add: Cons.IH) next
    case 3 show ?case by (cases i) (simp_all add: Cons.IH replicate_app_Cons_same) }
qed

lemma unat_succ_below: "i < n \<Longrightarrow> unat (i + 1) = Suc (unat i)" for i n :: uint8_t
proof -
  assume "i < n"
  then have "unat i < unat n" by (simp add: word_less_nat_alt)
  moreover have "unat n < 256" using unsigned_less [of n] by simp
  ultimately show ?thesis by (simp add: unat_word_ariths)
qed

lemma deep_sleep_loop_eq:
  "i \<le> num_sleeps \<Longrightarrow>
   deep_sleep_loop i num_sleeps irqs s =
     (if unat num_sleeps - unat i \<le> length irqs
      then Some (sleeps (take (unat num_sleeps - unat i) irqs) s,
                 drop (unat num_sleeps - unat i) irqs)
      else None)"
proof (induction i num_sleeps irqs s rule: deep_sleep_loop.induct)
  case (1 i num_sleeps irqs s)
  show ?case
  proof (cases "i < num_sleeps")
    case False
    with "1.prems" have "i = num_sleeps" by simp
    then show ?thesis by (subst deep_sleep_loop.simps) simp
  next
    case True
    then have u: "unat (i + 1) = Suc (unat i)" by (rule unat_succ_below)
    from True have lt: "unat i < unat num_sleeps" by (simp add: word_less_nat_alt)
    then have k: "unat num_sleeps - unat i = Suc (unat num_sleeps - unat (i + 1))"
      using u by simp
    from lt u have le: "i + 1 \<le> num_sleeps" by (simp add: word_le_nat_alt)
    show ?thesis
    proof (cases irqs)
      case Nil
      with True k show ?thesis
        by (subst deep_sleep_loop.simps) (simp add: sleep_mode_def)
    next
      case (Cons a rest)
      have sm: "sleep_mode irqs s
          = Some (isr a (s\<lparr>events := events s @ [Sleep (sleep_mode_sel s)]\<rparr>), rest)"
        by (simp add: sleep_mode_def Cons)
      note IH = "1.IH" [OF True sm refl le]
      show ?thesis
        by (subst deep_sleep_loop.simps) (simp add: True sm [unfolded Cons] IH k Cons)
    qed
  qed
qed

lemma jitter_le: "unat (r AND 7) \<le> 7" for r :: uint8_t
proof -
  have "unat (r AND 7) \<le> unat (7 :: uint8_t)"
    by (rule word_and_le1 [THEN word_le_nat_alt [THEN iffD1]])
  then show ?thesis by simp
qed

lemma num_sleeps_unat:
  "unat (word_of_int (SLEEP_TIME div WDT_DURATION + uint (r AND 7)) :: uint8_t)
     = 117 + unat (r AND 7)" for r :: uint8_t
proof -
  have "(word_of_int (SLEEP_TIME div WDT_DURATION + uint (r AND 7)) :: uint8_t) = 117 + (r AND 7)"
    by (simp add: SLEEP_TIME_def WDT_DURATION_def)
  moreover have "unat (117 + (r AND 7)) = (117 + unat (r AND 7)) mod 256"
    by (simp add: unat_word_ariths)
  ultimately show ?thesis using jitter_le [of r] by simp
qed

lemma rand_byte_fst_cong: "lfsr_state s = lfsr_state t \<Longrightarrow> fst (rand_byte s) = fst (rand_byte t)"
  by (simp add: rand_byte_def Let_def)

lemma rand_byte_snd:
  "snd (rand_byte s) = s\<lparr>lfsr_state := rand_loop 8 (if lfsr_state s = 0 then 0xDEAD else lfsr_state s)\<rparr>"
  by (simp add: rand_byte_def Let_def)

lemma rand_byte_power_on: "fst (rand_byte (power_on :: 16 node)) = 0x84"
  by code_simp

text \<open>
  C7. The number of sleeps of \<^verbatim>\<open>deep_sleep\<close> is \<open>234 div 2 = 117\<close> plus the low three bits
  of the byte \<^verbatim>\<open>rand_byte\<close> returns, hence between 117 and 124. Given at least that many
  wake-ups, \<^verbatim>\<open>deep_sleep\<close> returns after entering the power-down state exactly that many
  times, between enabling and disabling the watchdog interrupt, and has consumed one
  wake-up for each; given fewer, it does not return.
\<close>

theorem deep_sleep_iterations:
  fixes s :: "'w::len node" and irqs :: "irq list"
  defines "jitter \<equiv> unat (fst (rand_byte s) AND 7)"
  defines "n \<equiv> 117 + jitter"
  shows "nat (SLEEP_TIME div WDT_DURATION) = 117 \<and> jitter \<le> 7 \<and> 117 \<le> n \<and> n \<le> 124
    \<and> (if n \<le> length irqs
        then \<exists>s'. deep_sleep irqs s = Some (s', drop n irqs)
               \<and> events s' = events s
                   @ [Set_sleep_mode SLEEP_MODE_PWR_DOWN, Wdt_reset, Out_WDTCR (WDTCR s OR BV WDTIE)]
                   @ replicate n (Sleep SLEEP_MODE_PWR_DOWN)
                   @ [Out_WDTCR ((WDTCR s OR BV WDTIE) AND NOT (BV WDTIE))]
        else deep_sleep irqs s = None)"
proof -
  let ?s3 = "out_WDTCR (WDTCR (wdt_reset (set_sleep_mode SLEEP_MODE_PWR_DOWN s)) OR BV WDTIE)
               (wdt_reset (set_sleep_mode SLEEP_MODE_PWR_DOWN s))"
  have r: "fst (rand_byte ?s3) = fst (rand_byte s)"
    by (rule rand_byte_fst_cong) (simp add: out_WDTCR_def wdt_reset_def set_sleep_mode_def)
  have j: "jitter \<le> 7" unfolding jitter_def by (rule jitter_le)
  define nw :: uint8_t
    where "nw = word_of_int (SLEEP_TIME div WDT_DURATION + uint (fst (rand_byte s) AND 7))"
  have num: "unat nw = n"
    unfolding n_def jitter_def nw_def by (rule num_sleeps_unat)
  have ds: "deep_sleep irqs s =
      (case deep_sleep_loop 0 nw irqs (snd (rand_byte ?s3)) of
         None \<Rightarrow> None
       | Some (s, irqs) \<Rightarrow> Some (out_WDTCR (WDTCR s AND NOT (BV WDTIE)) s, irqs))"
    unfolding nw_def by (simp add: deep_sleep_def Let_def split_beta r)
  have "nat (SLEEP_TIME div WDT_DURATION) = 117"
    by (simp add: SLEEP_TIME_def WDT_DURATION_def)
  moreover have "117 \<le> n" "n \<le> 124" using j by (simp_all add: n_def)
  moreover have "if n \<le> length irqs
        then \<exists>s'. deep_sleep irqs s = Some (s', drop n irqs)
               \<and> events s' = events s
                   @ [Set_sleep_mode SLEEP_MODE_PWR_DOWN, Wdt_reset, Out_WDTCR (WDTCR s OR BV WDTIE)]
                   @ replicate n (Sleep SLEEP_MODE_PWR_DOWN)
                   @ [Out_WDTCR ((WDTCR s OR BV WDTIE) AND NOT (BV WDTIE))]
        else deep_sleep irqs s = None"
    by (simp add: ds deep_sleep_loop_eq num rand_byte_snd out_WDTCR_def wdt_reset_def
        set_sleep_mode_def)
  ultimately show ?thesis using j by (simp only: simp_thms)
qed



theorem deep_sleep_iterations_witness:
  "map_option snd (deep_sleep (replicate 130 WDT_vect) (power_on :: 16 node))
     = Some (replicate 9 WDT_vect)
   \<and> deep_sleep (replicate 120 WDT_vect) (power_on :: 16 node) = None"
proof -
  have jit: "unat (fst (rand_byte (power_on :: 16 node)) AND 7) = 4"
    by (simp add: rand_byte_power_on)
  have "map_option snd (deep_sleep (replicate 130 WDT_vect) (power_on :: 16 node))
     = Some (replicate 9 WDT_vect)"
    using deep_sleep_iterations [where s = "power_on :: 16 node" and irqs = "replicate 130 WDT_vect"]
    by (auto simp add: jit)
  moreover have "deep_sleep (replicate 120 WDT_vect) (power_on :: 16 node) = None"
    using deep_sleep_iterations [where s = "power_on :: 16 node" and irqs = "replicate 120 WDT_vect"]
    by (simp add: jit)
  ultimately show ?thesis by simp
qed

end
